theory Spec2Isabelle
  imports Main "HOL-Library.Char_ord" "HOL-Library.List_Lexorder" "HOL-Library.Multiset"
    "HOL-Library.AList"
begin

section \<open>Text primitives of the host language\<close>

text \<open>
  Strings are lists of 8-bit characters, read as code points below 256. Comparison of
  characters and strings is by code point and lexicographic, as the host language
  compares them.
\<close>

definition ascii_uppercase :: string where
  "ascii_uppercase = ''ABCDEFGHIJKLMNOPQRSTUVWXYZ''"

definition ascii_lowercase :: string where
  "ascii_lowercase = ''abcdefghijklmnopqrstuvwxyz''"

text \<open>
  \<open>str.upper()\<close>, on the ASCII letters: each lowercase letter goes to the uppercase
  letter at the same place of the alphabet, every other character is kept. The host
  language also changes some characters above 127 (one of them into two letters); text
  with such characters is outside this model.
\<close>

definition upper_char :: "char \<Rightarrow> char" where
  "upper_char c = (case map_of (zip ascii_lowercase ascii_uppercase) c of None \<Rightarrow> c | Some u \<Rightarrow> u)"

definition upper :: "string \<Rightarrow> string" where
  "upper s = map upper_char s"

text \<open>
  The white space of \<open>str.strip()\<close> and \<open>str.split()\<close>: tab, line feed, vertical tab,
  form feed, carriage return, the four separators 28 to 31, space, and 133 and 160.
\<close>

definition isspace :: "char \<Rightarrow> bool" where
  "isspace c = ((of_char c :: nat) \<in> set [9, 10, 11, 12, 13, 28, 29, 30, 31, 32, 133, 160])"

definition strip :: "string \<Rightarrow> string" where
  "strip s = rev (dropWhile isspace (rev (dropWhile isspace s)))"

text \<open>
  \<open>str.split()\<close> without arguments: the maximal runs of characters that are not white
  space. \<open>cur\<close> is the run being read.
\<close>

fun split_from :: "string \<Rightarrow> string \<Rightarrow> string list" where
  "split_from cur [] = (if cur = [] then [] else [cur])"
| "split_from cur (c # cs) =
     (if isspace c then (if cur = [] then split_from [] cs else cur # split_from [] cs)
      else split_from (cur @ [c]) cs)"

definition split :: "string \<Rightarrow> string list" where
  "split s = split_from [] s"

text \<open>\<open>" ".join(ws)\<close>\<close>

fun join :: "string list \<Rightarrow> string" where
  "join [] = []"
| "join [w] = w"
| "join (w # v # ws) = w @ CHR '' '' # join (v # ws)"

section \<open>The regular expressions the solver builds\<close>

text \<open>
  The solver hands the strings built by \<open>pattern_to_regex\<close> to the regular-expression
  library. The fragment of that library modelled here: the anchors \<open>^\<close> and \<open>$\<close>, the
  dot, character sets \<open>[...]\<close> with ranges and negation, and literal characters. A
  string that uses a quantifier, a group, an alternation or an escape gets no matcher
  (\<open>None\<close>), as does a string the library rejects (an unterminated set, a range whose
  bounds are reversed).
\<close>

datatype rx_item = Bol | Eol | Any_char | Lit char | Char_set bool "(char \<times> char) list"

definition rx_special :: string where
  "rx_special = [CHR ''*'', CHR ''+'', CHR ''?'', CHR ''{'', CHR ''}'', CHR ''('', CHR '')'',
     CHR ''|'', CHR 0x5C]"

fun re_parse :: "string \<Rightarrow> rx_item list option"
  and re_set :: "bool \<Rightarrow> (char \<times> char) list \<Rightarrow> string \<Rightarrow> rx_item list option" where
  "re_parse [] = Some []"
| "re_parse (c # cs) =
     (if c = CHR ''^'' then map_option (Cons Bol) (re_parse cs)
      else if c = CHR ''$'' then map_option (Cons Eol) (re_parse cs)
      else if c = CHR ''.'' then map_option (Cons Any_char) (re_parse cs)
      else if c = CHR ''['' then
        (case cs of
           [] \<Rightarrow> None
         | d # ds \<Rightarrow> if d = CHR ''^'' then re_set True [] ds else re_set False [] cs)
      else if c \<in> set rx_special then None
      else map_option (Cons (Lit c)) (re_parse cs))"
| "re_set neg acc [] = None"
| "re_set neg acc (c # cs) =
     (if c = CHR '']'' \<and> acc \<noteq> [] then map_option (Cons (Char_set neg acc)) (re_parse cs)
      else if c = CHR 0x5C then None
      else
        (case cs of
           [] \<Rightarrow> None
         | d # ds \<Rightarrow>
             if d = CHR ''-'' then
               (case ds of
                  [] \<Rightarrow> None
                | e # es \<Rightarrow>
                    if e = CHR '']'' then
                      map_option (Cons (Char_set neg (acc @ [(c, c), (CHR ''-'', CHR ''-'')])))
                        (re_parse es)
                    else if e = CHR 0x5C then None
                    else if e < c then None
                    else re_set neg (acc @ [(c, e)]) es)
             else re_set neg (acc @ [(c, c)]) cs))"

definition re_compile :: "string \<Rightarrow> rx_item list option" where
  "re_compile s = re_parse s"

text \<open>One item against one character. The dot takes every character but the line feed.\<close>

fun item_ok :: "rx_item \<Rightarrow> char \<Rightarrow> bool" where
  "item_ok (Lit a) c = (c = a)"
| "item_ok Any_char c = (c \<noteq> CHR 0x0A)"
| "item_ok (Char_set neg rs) c = (list_ex (\<lambda>(lo, hi). lo \<le> c \<and> c \<le> hi) rs \<noteq> neg)"
| "item_ok Bol c = False"
| "item_ok Eol c = False"

text \<open>
  \<open>rx.match(s)\<close>: the items are matched from the start of the string; \<open>at_start\<close>
  says that no character has been read yet. \<open>$\<close> holds at the end of the string and
  just before a line feed that ends it.
\<close>

fun rx_match :: "rx_item list \<Rightarrow> bool \<Rightarrow> string \<Rightarrow> bool" where
  "rx_match [] at_start s = True"
| "rx_match (Bol # r) at_start s = (at_start \<and> rx_match r at_start s)"
| "rx_match (Eol # r) at_start s = ((s = [] \<or> s = [CHR 0x0A]) \<and> rx_match r at_start s)"
| "rx_match (it # r) at_start [] = False"
| "rx_match (it # r) at_start (c # s) = (item_ok it c \<and> rx_match r False s)"

section \<open>Pattern utilities\<close>

text \<open>
  \<open>attempted\<close> is the optional collection of single characters the caller gives; an
  absent or empty one adds nothing.
\<close>

definition extract_attempted_letters :: "string \<Rightarrow> char list option \<Rightarrow> char set" where
  "extract_attempted_letters pattern attempted =
     (let given_attempted =
            (case attempted of None \<Rightarrow> {} | Some xs \<Rightarrow> if xs = [] then {} else set (map upper_char xs));
          pattern_attempted = set (filter (\<lambda>c. c \<in> set ascii_uppercase) (upper pattern))
      in pattern_attempted \<union> given_attempted)"

text \<open>
  \<open>forbidden_letters\<close> is the optional collection of letters, in the order in which it
  is iterated when it is joined into one string.
\<close>

definition pattern_to_regex :: "string \<Rightarrow> char list option \<Rightarrow> string" where
  "pattern_to_regex pattern forbidden_letters =
     (let forbidden = (case forbidden_letters of None \<Rightarrow> [] | Some xs \<Rightarrow> xs);
          rx = map (\<lambda>ch.
                 if ch = CHR ''_'' then
                   (if forbidden \<noteq> [] then ''[A-Z^'' @ forbidden @ '']'' else ''[A-Z]'')
                 else if ch \<in> set ascii_uppercase then [ch]
                 else [ch]) pattern
      in ''^'' @ concat rx @ ''$'')"

section \<open>Dictionary matching\<close>

text \<open>
  The inner loop of \<open>phrase_matches\<close> and \<open>match_words\<close>: no position whose pattern
  character is the placeholder holds a forbidden letter. The loop runs over the zip of
  the two strings and stops at the first offence.
\<close>

definition blanks_ok :: "string \<Rightarrow> string \<Rightarrow> char set \<Rightarrow> bool" where
  "blanks_ok pattern p forbidden_letters =
     list_all (\<lambda>(pat_char, ph_char). \<not> (pat_char = CHR ''_'' \<and> ph_char \<in> forbidden_letters))
       (zip pattern p)"

definition phrase_matches :: "string \<Rightarrow> string list \<Rightarrow> char set \<Rightarrow> string list option" where
  "phrase_matches pattern phrases forbidden_letters =
     (case re_compile (pattern_to_regex pattern None) of
        None \<Rightarrow> None
      | Some rx \<Rightarrow>
          Some (filter (\<lambda>p. rx_match rx True p \<and> blanks_ok pattern p forbidden_letters) phrases))"

definition match_words :: "string list \<Rightarrow> string \<Rightarrow> char set \<Rightarrow> string list option" where
  "match_words words pattern_word forbidden_letters =
     (case re_compile (pattern_to_regex pattern_word None) of
        None \<Rightarrow> None
      | Some rx \<Rightarrow>
          Some (filter (\<lambda>w. length w = length pattern_word \<and> rx_match rx True w
                            \<and> blanks_ok pattern_word w forbidden_letters) words))"

text \<open>
  The loop of \<open>solve_pattern\<close> over the parts, with the lists collected so far; the
  first part without a match ends the whole call with no solution.
\<close>

fun solve_parts :: "string list \<Rightarrow> string list \<Rightarrow> char set \<Rightarrow> string list list
    \<Rightarrow> string list option" where
  "solve_parts [] words forbidden_letters candidate_lists =
     Some (map join (product_lists candidate_lists))"
| "solve_parts (part # parts) words forbidden_letters candidate_lists =
     (case match_words words part forbidden_letters of
        None \<Rightarrow> None
      | Some matches \<Rightarrow>
          if matches = [] then Some []
          else solve_parts parts words forbidden_letters (candidate_lists @ [matches]))"

definition solve_pattern :: "string \<Rightarrow> string list \<Rightarrow> char set \<Rightarrow> string list option" where
  "solve_pattern pattern words forbidden_letters =
     solve_parts (split pattern) words forbidden_letters []"

section \<open>Ranking and next guess\<close>

text \<open>\<open>Counter("ETAOINSHRDLU")\<close>, read with \<open>freq.get(ch, 0)\<close>.\<close>

definition freq :: "char \<Rightarrow> int" where
  "freq ch = int (count_list ''ETAOINSHRDLU'' ch)"

text \<open>
  The score the loop of \<open>rank_solutions\<close> gives one solution. The phrase set is
  optional, and an absent or empty one gives no bonus.
\<close>

definition score :: "string \<Rightarrow> string set option \<Rightarrow> int" where
  "score s phrase_set =
     (let base = sum_list (map freq s)
      in if (case phrase_set of None \<Rightarrow> False | Some ps \<Rightarrow> ps \<noteq> {} \<and> s \<in> ps)
         then base + 100 else base)"

text \<open>
  The list of pairs is sorted by the score, highest first, and the sort is stable:
  an insertion sort on the negated score.
\<close>

definition rank_solutions :: "string list \<Rightarrow> string set option \<Rightarrow> string list" where
  "rank_solutions solutions phrase_set =
     map fst (sort_key (\<lambda>(s, sc). - sc) (map (\<lambda>s. (s, score s phrase_set)) solutions))"

text \<open>
  A \<open>Counter\<close> is an association list in insertion order. \<open>counts[ch] += n\<close> reads a
  missing key as 0, and a new key goes to the end.
\<close>

type_synonym counter = "(char \<times> int) list"

definition counter_get :: "counter \<Rightarrow> char \<Rightarrow> int" where
  "counter_get counts ch = (case map_of counts ch of None \<Rightarrow> 0 | Some v \<Rightarrow> v)"

definition counter_add :: "char \<Rightarrow> int \<Rightarrow> counter \<Rightarrow> counter" where
  "counter_add ch n counts = AList.update ch (counter_get counts ch + n) counts"

text \<open>
  \<open>most_common()\<close>: the items sorted by count, highest first, equal counts in
  insertion order.
\<close>

definition most_common :: "counter \<Rightarrow> counter" where
  "most_common counts = sort_key (\<lambda>(ch, n). - n) counts"

text \<open>
  The body of the inner loop of \<open>recommend_next_letter\<close> for one character \<open>ch\<close> of
  the solution \<open>s\<close> of weight \<open>w\<close> (the weight after \<open>int(w)\<close>).
\<close>

definition tally_char :: "char set \<Rightarrow> string set \<Rightarrow> string \<Rightarrow> int \<Rightarrow> char \<Rightarrow> counter \<Rightarrow> counter" where
  "tally_char attempted phrase_set s w ch counts =
     (if ch \<in> set ascii_uppercase \<and> ch \<notin> attempted then
        (let counts1 = counter_add ch w counts
         in if s \<in> phrase_set then counter_add ch (w * 10) counts1 else counts1)
      else counts)"

definition tally_solution :: "char set \<Rightarrow> string set \<Rightarrow> string \<times> int \<Rightarrow> counter \<Rightarrow> counter" where
  "tally_solution attempted phrase_set sw counts =
     fold (tally_char attempted phrase_set (fst sw) (snd sw)) (fst sw) counts"

text \<open>The second loop: a letter that is neither attempted nor counted gets \<open>-1\<close>.\<close>

definition penalise :: "char set \<Rightarrow> char \<Rightarrow> counter \<Rightarrow> counter" where
  "penalise attempted ch counts =
     (if ch \<notin> attempted \<and> ch \<notin> fst ` set counts then counter_add ch (- 1) counts else counts)"

text \<open>
  \<open>weights\<close> holds the weights after \<open>int(w)\<close>; without weights every solution has
  weight 1.
\<close>

definition recommend_next_letter :: "string list \<Rightarrow> char set \<Rightarrow> int list option \<Rightarrow> string set
    \<Rightarrow> counter" where
  "recommend_next_letter solutions attempted weights phrase_set =
     (let ws = (case weights of None \<Rightarrow> replicate (length solutions) 1 | Some ws \<Rightarrow> ws);
          counts = fold (tally_solution attempted phrase_set) (zip solutions ws) [];
          counts2 = fold (penalise attempted) ''ABCDEFGHIJKLMNOPQRSTUVWXYZ'' counts
      in most_common counts2)"

section \<open>The main solver\<close>

text \<open>
  A file is the list of its lines, or \<open>None\<close> when the path does not exist.
\<close>

definition load_list :: "string list option \<Rightarrow> string list" where
  "load_list f =
     (case f of
        None \<Rightarrow> []
      | Some lines \<Rightarrow> map (\<lambda>line. upper (strip line)) (filter (\<lambda>line. strip line \<noteq> []) lines))"

record result =
  solutions :: "string list"
  ranked :: "string list"
  next_letter :: counter

text \<open>
  \<open>sorted(all_solutions)\<close> on the set of both paths' results is the duplicate-free
  list in ascending order. \<open>None\<close> is the call ending in an exception of the
  regular-expression library (or leaving the fragment modelled).
\<close>

definition wof_solver :: "string \<Rightarrow> char list option \<Rightarrow> string list option \<Rightarrow> string list option
    \<Rightarrow> result option" where
  "wof_solver pattern0 attempted_letters words_file phrases_file =
     (let pattern = upper pattern0;
          attempted = extract_attempted_letters pattern attempted_letters;
          words = load_list words_file;
          phrases = load_list phrases_file;
          phrase_set = set phrases;
          forbidden = set (filter (\<lambda>c. c \<in> set ascii_uppercase) pattern) \<union> attempted
      in case phrase_matches pattern phrases forbidden of
           None \<Rightarrow> None
         | Some matched \<Rightarrow>
             (case solve_pattern pattern words forbidden of
                None \<Rightarrow> None
              | Some word_based \<Rightarrow>
                  (let all_solutions = sort (remdups (matched @ word_based))
                   in if all_solutions = [] then
                        Some \<lparr>solutions = [], ranked = [],
                              next_letter = recommend_next_letter [] attempted None phrase_set\<rparr>
                      else
                        (let ranked = rank_solutions all_solutions (Some phrase_set);
                             next_letter = recommend_next_letter ranked attempted None phrase_set
                         in Some \<lparr>solutions = all_solutions, ranked = ranked,
                                  next_letter = next_letter\<rparr>))))"

section \<open>Notions of the specification\<close>

text \<open>
  A valid pattern: every character is an uppercase letter, the placeholder or a space,
  and the spaces are single separators between segments (none leads, none trails, no
  two are adjacent).
\<close>

definition pattern_char :: "char \<Rightarrow> bool" where
  "pattern_char c = (c \<in> set ascii_uppercase \<or> c = CHR ''_'' \<or> c = CHR '' '')"

fun single_spaced :: "string \<Rightarrow> bool" where
  "single_spaced [] = True"
| "single_spaced [c] = (c \<noteq> CHR '' '')"
| "single_spaced (c # d # cs) = (\<not> (c = CHR '' '' \<and> d = CHR '' '') \<and> single_spaced (d # cs))"

definition valid_pattern :: "string \<Rightarrow> bool" where
  "valid_pattern p =
     (list_all pattern_char p \<and> (case p of [] \<Rightarrow> True | c # cs \<Rightarrow> c \<noteq> CHR '' '')
      \<and> single_spaced p)"

text \<open>
  A character that stands for itself when it is copied into a regular expression: none
  of the characters the library reads as syntax.
\<close>

definition plain_char :: "char \<Rightarrow> bool" where
  "plain_char c = (c \<notin> set ''^$.['' \<and> c \<notin> set rx_special)"

text \<open>The item one pattern character compiles to when no letter is forbidden.\<close>

definition cell_item :: "char \<Rightarrow> rx_item" where
  "cell_item ch = (if ch = CHR ''_'' then Char_set False [(CHR ''A'', CHR ''Z'')] else Lit ch)"

text \<open>
  What a candidate's character \<open>c\<close> owes the pattern's character \<open>pc\<close> at the same
  position: a placeholder is filled with an uppercase letter outside the forbidden set,
  every other cell is kept.
\<close>

definition fits :: "char set \<Rightarrow> char \<Rightarrow> char \<Rightarrow> bool" where
  "fits forbidden pc c =
     (if pc = CHR ''_'' then c \<in> set ascii_uppercase \<and> c \<notin> forbidden else c = pc)"

section \<open>Compiling and matching patterns\<close>

lemma uppercase_range: "c \<in> set ascii_uppercase \<longleftrightarrow> CHR ''A'' \<le> c \<and> c \<le> CHR ''Z''"
proof -
  have a: "(65 \<le> n \<and> n \<le> 90) = (n \<in> set [65..<91])" for n :: nat
    unfolding set_upt atLeastLessThan_iff by arith
  have b: "[65..<91] = map of_char ascii_uppercase"
    by (simp add: ascii_uppercase_def upt_rec)
  have "CHR ''A'' \<le> c \<and> c \<le> CHR ''Z'' \<longleftrightarrow> 65 \<le> (of_char c::nat) \<and> (of_char c::nat) \<le> 90"
    by (simp add: less_eq_char_def)
  also have "\<dots> \<longleftrightarrow> (of_char c :: nat) \<in> of_char ` set ascii_uppercase"
    unfolding a b by simp
  also have "\<dots> \<longleftrightarrow> c \<in> set ascii_uppercase"
    by auto
  finally show ?thesis by simp
qed

lemma item_ok_cell:
  "item_ok (cell_item pc) c = (if pc = CHR ''_'' then c \<in> set ascii_uppercase else c = pc)"
  by (simp add: cell_item_def uppercase_range)

lemma re_parse_cell:
  assumes "plain_char ch"
  shows "re_parse ((if ch = CHR ''_'' then ''[A-Z]'' else [ch]) @ rest) =
         map_option (Cons (cell_item ch)) (re_parse rest)"
  using assms by (simp add: plain_char_def cell_item_def less_char_def)

lemma re_parse_cells:
  "list_all plain_char p \<Longrightarrow>
   re_parse (concat (map (\<lambda>ch. if ch = CHR ''_'' then ''[A-Z]'' else [ch]) p) @ rest) =
   map_option ((@) (map cell_item p)) (re_parse rest)"
proof (induction p)
  case Nil
  then show ?case by (simp add: option.map_ident)
next
  case (Cons ch p)
  have "re_parse (concat (map (\<lambda>ch. if ch = CHR ''_'' then ''[A-Z]'' else [ch]) (ch # p)) @ rest) =
        re_parse ((if ch = CHR ''_'' then ''[A-Z]'' else [ch]) @
          (concat (map (\<lambda>ch. if ch = CHR ''_'' then ''[A-Z]'' else [ch]) p) @ rest))"
    by simp
  also have "\<dots> = map_option (Cons (cell_item ch))
      (re_parse (concat (map (\<lambda>ch. if ch = CHR ''_'' then ''[A-Z]'' else [ch]) p) @ rest))"
    using Cons.prems by (intro re_parse_cell) simp
  also have "\<dots> = map_option ((@) (map cell_item (ch # p))) (re_parse rest)"
    using Cons by (cases "re_parse rest") simp_all
  finally show ?case .
qed

lemma compile_plain:
  assumes "list_all plain_char p"
  shows "re_compile (pattern_to_regex p None) = Some (Bol # map cell_item p @ [Eol])"
proof -
  have "pattern_to_regex p None =
        CHR ''^'' # (concat (map (\<lambda>ch. if ch = CHR ''_'' then ''[A-Z]'' else [ch]) p) @ ''$'')"
    by (simp add: pattern_to_regex_def cong: if_cong)
  then show ?thesis
    using re_parse_cells [OF assms, of "''$''"] by (simp add: re_compile_def)
qed

lemma rx_match_cells:
  "rx_match (map cell_item p @ [Eol]) b s \<longleftrightarrow>
   (\<exists>t. (s = t \<or> s = t @ [CHR 0x0A]) \<and> list_all2 (\<lambda>pc c. item_ok (cell_item pc) c) p t)"
proof (induction p arbitrary: b s)
  case Nil
  then show ?case by auto
next
  case (Cons a p)
  show ?case
  proof (cases s)
    case Nil
    then show ?thesis by (auto simp: cell_item_def list_all2_Cons1)
  next
    case (Cons c s')
    have "rx_match (map cell_item (a # p) @ [Eol]) b (c # s') =
          (item_ok (cell_item a) c \<and> rx_match (map cell_item p @ [Eol]) False s')"
      by (simp add: cell_item_def)
    then show ?thesis
      unfolding Cons Cons.IH by (auto simp: list_all2_Cons1 Cons_eq_append_conv)
  qed
qed

subsection \<open>What a match says about a string\<close>

lemma fits_from_match:
  "list_all2 (\<lambda>pc c. item_ok (cell_item pc) c) p t \<Longrightarrow> blanks_ok p t fb \<Longrightarrow> list_all2 (fits fb) p t"
  unfolding blanks_ok_def
  by (induction rule: list_all2_induct) (auto simp: item_ok_cell fits_def split: if_splits)

lemma match_from_fits:
  "list_all2 (fits fb) p t \<Longrightarrow> list_all2 (\<lambda>pc c. item_ok (cell_item pc) c) p t \<and> blanks_ok p t fb"
  unfolding blanks_ok_def
  by (induction rule: list_all2_induct) (auto simp: item_ok_cell fits_def split: if_splits)

lemma phrase_matches_plain:
  assumes "list_all plain_char p"
  shows "phrase_matches p phrases fb =
         Some (filter (\<lambda>q. rx_match (map cell_item p @ [Eol]) True q \<and> blanks_ok p q fb) phrases)"
  by (simp add: phrase_matches_def compile_plain [OF assms])

lemma phrase_matches_fits:
  assumes "list_all plain_char p" and "phrase_matches p phrases fb = Some ms" and "q \<in> set ms"
    and "q = [] \<or> last q \<noteq> CHR 0x0A"
  shows "list_all2 (fits fb) p q"
proof -
  from assms(2,3) have m: "rx_match (map cell_item p @ [Eol]) True q" and b: "blanks_ok p q fb"
    by (auto simp: phrase_matches_plain [OF assms(1)])
  from m obtain t where t: "q = t \<or> q = t @ [CHR 0x0A]"
    and l: "list_all2 (\<lambda>pc c. item_ok (cell_item pc) c) p t"
    unfolding rx_match_cells by blast
  from t assms(4) have "q = t" by auto
  with l b show ?thesis by (simp add: fits_from_match)
qed

lemma match_words_plain:
  assumes "list_all plain_char part"
  shows "match_words words part fb =
         Some (filter (\<lambda>w. list_all2 (fits fb) part w) words)"
proof -
  have "(length w = length part \<and> rx_match (map cell_item part @ [Eol]) True w \<and> blanks_ok part w fb)
        = list_all2 (fits fb) part w" for w
  proof
    assume a: "length w = length part \<and> rx_match (map cell_item part @ [Eol]) True w \<and> blanks_ok part w fb"
    then obtain t where t: "w = t \<or> w = t @ [CHR 0x0A]"
      and l: "list_all2 (\<lambda>pc c. item_ok (cell_item pc) c) part t"
      unfolding rx_match_cells by blast
    from l have "length t = length part" by (simp add: list_all2_lengthD)
    with t a have "w = t" by auto
    with l a show "list_all2 (fits fb) part w" by (simp add: fits_from_match)
  next
    assume f: "list_all2 (fits fb) part w"
    then have "length w = length part" by (simp add: list_all2_lengthD)
    moreover from f have "rx_match (map cell_item part @ [Eol]) True w"
      unfolding rx_match_cells using match_from_fits by blast
    ultimately show "length w = length part \<and> rx_match (map cell_item part @ [Eol]) True w \<and> blanks_ok part w fb"
      using match_from_fits [OF f] by simp
  qed
  then show ?thesis
    by (simp add: match_words_def compile_plain [OF assms])
qed

subsection \<open>Upper-casing and the lines of a loaded file\<close>

lemma lower_not_space: "c \<in> set ascii_lowercase \<Longrightarrow> \<not> isspace c"
  by (auto simp: ascii_lowercase_def isspace_def)

lemma upper_of_lower: "c \<in> set ascii_lowercase \<Longrightarrow> upper_char c \<in> set ascii_uppercase"
  by (auto simp: ascii_lowercase_def ascii_uppercase_def upper_char_def)

lemma upper_char_other: "c \<notin> set ascii_lowercase \<Longrightarrow> upper_char c = c"
  by (simp add: ascii_lowercase_def ascii_uppercase_def upper_char_def)

lemma upper_not_lower: "c \<in> set ascii_uppercase \<Longrightarrow> c \<notin> set ascii_lowercase"
  by (auto simp: ascii_lowercase_def ascii_uppercase_def)

lemma upper_not_space: "c \<in> set ascii_uppercase \<Longrightarrow> \<not> isspace c"
  by (auto simp: ascii_uppercase_def isspace_def)

lemma isspace_upper_char: "isspace (upper_char c) = isspace c"
  using lower_not_space [of c] upper_not_space [OF upper_of_lower, of c]
  by (cases "c \<in> set ascii_lowercase") (simp_all add: upper_char_other)

lemma upper_char_idem: "upper_char (upper_char c) = upper_char c"
  using upper_not_lower [OF upper_of_lower, of c]
  by (cases "c \<in> set ascii_lowercase") (simp_all add: upper_char_other)

lemma upper_idem: "upper (upper s) = upper s"
  by (simp add: upper_def upper_char_idem)

lemma strip_last: "strip s \<noteq> [] \<Longrightarrow> \<not> isspace (last (strip s))"
proof -
  assume a: "strip s \<noteq> []"
  let ?d = "dropWhile isspace (rev (dropWhile isspace s))"
  from a have "?d \<noteq> []" by (simp add: strip_def)
  then have "\<not> isspace (hd ?d)" by (rule hd_dropWhile)
  moreover have "last (strip s) = hd ?d" using \<open>?d \<noteq> []\<close> by (simp add: strip_def last_rev)
  ultimately show ?thesis by simp
qed

lemma load_list_line:
  assumes "q \<in> set (load_list f)"
  shows "q \<noteq> [] \<and> last q \<noteq> CHR 0x0A"
proof -
  from assms obtain l where l: "strip l \<noteq> []" and q: "q = upper (strip l)"
    by (auto simp: load_list_def split: option.splits)
  from l have "\<not> isspace (last (strip l))" by (rule strip_last)
  then have "\<not> isspace (last q)" using l by (simp add: q upper_def last_map isspace_upper_char)
  moreover have "isspace (CHR 0x0A)" by (simp add: isspace_def)
  ultimately show ?thesis using l by (auto simp: q upper_def)
qed

subsection \<open>Splitting and joining\<close>

lemma split_from_shape:
  "list_all2 (\<lambda>a b. isspace a = isspace b) p c \<Longrightarrow> length cur = length cur' \<Longrightarrow>
   map length (split_from cur p) = map length (split_from cur' c)"
proof (induction arbitrary: cur cur' rule: list_all2_induct)
  case Nil
  then show ?case by auto
next
  case (Cons x xs y ys)
  show ?case
  proof (cases "isspace x")
    case True
    with Cons.hyps have "isspace y" by simp
    have "map length (split_from [] xs) = map length (split_from [] ys)"
      by (rule Cons.IH) simp
    with True \<open>isspace y\<close> Cons.prems show ?thesis by auto
  next
    case False
    with Cons.hyps have "\<not> isspace y" by simp
    have "map length (split_from (cur @ [x]) xs) = map length (split_from (cur' @ [y]) ys)"
      by (rule Cons.IH) (simp add: Cons.prems)
    with False \<open>\<not> isspace y\<close> show ?thesis by simp
  qed
qed

lemma split_from_nonempty: "cur \<noteq> [] \<or> (\<exists>c\<in>set p. \<not> isspace c) \<Longrightarrow> split_from cur p \<noteq> []"
  by (induction p arbitrary: cur) auto

lemma join_Cons: "ws \<noteq> [] \<Longrightarrow> join (w # ws) = w @ CHR '' '' # join ws"
  by (cases ws) simp_all

lemma join_split_from:
  assumes "single_spaced p" and "\<forall>c\<in>set p. isspace c \<longrightarrow> c = CHR '' ''"
    and "cur = [] \<longrightarrow> (case p of [] \<Rightarrow> True | c # cs \<Rightarrow> c \<noteq> CHR '' '')"
  shows "join (split_from cur p) = cur @ p"
  using assms
proof (induction p arbitrary: cur)
  case Nil
  then show ?case by simp
next
  case (Cons c cs)
  show ?case
  proof (cases "isspace c")
    case True
    with Cons.prems have c: "c = CHR '' ''" and cur: "cur \<noteq> []" by auto
    from Cons.prems(1) c obtain d ds where cs: "cs = d # ds" and d: "d \<noteq> CHR '' ''"
      by (cases cs) auto
    have ss: "single_spaced cs" using Cons.prems(1) cs by simp
    have "\<not> isspace d" using Cons.prems(2) d cs by auto
    then have ne: "split_from [] cs \<noteq> []" using cs by (intro split_from_nonempty) auto
    have "join (split_from [] cs) = [] @ cs"
      using ss Cons.prems(2) cs d by (intro Cons.IH) auto
    then show ?thesis using True cur ne c by (simp add: join_Cons)
  next
    case False
    have ss: "single_spaced cs" using Cons.prems(1) by (cases cs) auto
    have "join (split_from (cur @ [c]) cs) = (cur @ [c]) @ cs"
      using ss Cons.prems(2) by (intro Cons.IH) auto
    then show ?thesis using False by simp
  qed
qed

lemma pattern_char_space: "pattern_char c \<Longrightarrow> isspace c \<Longrightarrow> c = CHR '' ''"
  by (auto simp: pattern_char_def upper_not_space) (simp_all add: isspace_def)

lemma join_split_valid: "valid_pattern p \<Longrightarrow> join (split p) = p"
  unfolding split_def valid_pattern_def
  using join_split_from [of p "[]"] by (auto simp: list_all_iff pattern_char_space)

lemma pattern_char_plain: "pattern_char c \<Longrightarrow> plain_char c"
  by (auto simp: pattern_char_def plain_char_def ascii_uppercase_def rx_special_def)

lemma join_fits:
  "list_all2 (list_all2 (fits fb)) parts ws \<Longrightarrow> list_all2 (fits fb) (join parts) (join ws)"
proof (induction rule: list_all2_induct)
  case Nil
  then show ?case by simp
next
  case (Cons x xs y ys)
  show ?case
  proof (cases xs)
    case Nil
    with Cons show ?thesis by simp
  next
    case (Cons x' xs')
    with Cons.hyps(2) obtain y' ys' where "ys = y' # ys'" by (cases ys) auto
    moreover have "fits fb (CHR '' '') (CHR '' '')" by (simp add: fits_def)
    ultimately show ?thesis
      using Cons Cons.hyps Cons.IH by (auto intro!: list_all2_appendI)
  qed
qed

subsection \<open>The word path\<close>

lemma split_from_chars: "w \<in> set (split_from cur p) \<Longrightarrow> set w \<subseteq> set cur \<union> set p"
proof (induction p arbitrary: cur)
  case Nil
  then show ?case by (auto split: if_splits)
next
  case (Cons a p)
  show ?case
  proof (cases "isspace a")
    case True
    with Cons.prems have "w = cur \<or> w \<in> set (split_from [] p)"
      by (auto split: if_splits)
    then show ?thesis using Cons.IH [of "[]"] by auto
  next
    case False
    with Cons.prems have "w \<in> set (split_from (cur @ [a]) p)" by simp
    then show ?thesis using Cons.IH [of "cur @ [a]"] by auto
  qed
qed

lemma split_plain:
  assumes "list_all plain_char p" and "part \<in> set (split p)"
  shows "list_all plain_char part"
  using split_from_chars [of part "[]" p] assms by (auto simp: split_def list_all_iff)

lemma solve_parts_plain:
  "\<forall>part\<in>set parts. list_all plain_char part \<Longrightarrow>
   solve_parts parts words fb acc =
     (if \<exists>part\<in>set parts. filter (list_all2 (fits fb) part) words = [] then Some []
      else Some (map join (product_lists
             (acc @ map (\<lambda>part. filter (list_all2 (fits fb) part) words) parts))))"
  by (induction parts arbitrary: acc) (auto simp: match_words_plain)

lemma solve_pattern_plain:
  assumes "list_all plain_char p"
  shows "solve_pattern p words fb =
     (if \<exists>part\<in>set (split p). filter (list_all2 (fits fb) part) words = [] then Some []
      else Some (map join (product_lists
             (map (\<lambda>part. filter (list_all2 (fits fb) part) words) (split p)))))"
  unfolding solve_pattern_def
  using solve_parts_plain [of "split p" words fb "[]"] split_plain [OF assms] by simp

lemma product_fits:
  assumes "ws \<in> set (product_lists (map (\<lambda>part. filter (list_all2 (fits fb) part) words) parts))"
  shows "list_all2 (list_all2 (fits fb)) parts ws"
proof -
  from assms have "list_all2 (\<lambda>w ms. w \<in> set ms) ws
      (map (\<lambda>part. filter (list_all2 (fits fb) part) words) parts)"
    by (simp add: product_lists_set)
  then have "list_all2 (\<lambda>w part. list_all2 (fits fb) part w) ws parts"
    by (simp add: list_all2_map2 list_all2_mono)
  then show ?thesis
    by (simp add: list_all2_conv_all_nth)
qed

lemma solve_pattern_fits:
  assumes "valid_pattern p" and "solve_pattern p words fb = Some cs" and "c \<in> set cs"
  shows "list_all2 (fits fb) p c"
proof -
  have pl: "list_all plain_char p"
    using assms(1) by (auto simp: valid_pattern_def list_all_iff pattern_char_plain)
  from assms(2,3) obtain ws where c: "c = join ws"
    and ws: "ws \<in> set (product_lists (map (\<lambda>part. filter (list_all2 (fits fb) part) words) (split p)))"
    unfolding solve_pattern_plain [OF pl] by (auto split: if_splits)
  from ws have "list_all2 (list_all2 (fits fb)) (split p) ws" by (rule product_fits)
  then have "list_all2 (fits fb) (join (split p)) (join ws)" by (rule join_fits)
  then show ?thesis by (simp add: c join_split_valid [OF assms(1)])
qed

subsection \<open>The solver as one expression\<close>

lemma rank_solutions_Nil: "rank_solutions [] ps = []"
  by (simp add: rank_solutions_def)

lemma extract_attempted_upper:
  "extract_attempted_letters (upper p) att = extract_attempted_letters p att"
  by (simp add: extract_attempted_letters_def upper_idem)

lemma pattern_letters_attempted:
  "set (filter (\<lambda>c. c \<in> set ascii_uppercase) (upper p)) \<union> extract_attempted_letters p att
   = extract_attempted_letters p att"
  by (auto simp: extract_attempted_letters_def Let_def)

lemma wof_solver_unfold:
  "wof_solver p att wfile pfile =
     (case phrase_matches (upper p) (load_list pfile) (extract_attempted_letters p att) of
        None \<Rightarrow> None
      | Some matched \<Rightarrow>
          (case solve_pattern (upper p) (load_list wfile) (extract_attempted_letters p att) of
             None \<Rightarrow> None
           | Some word_based \<Rightarrow>
               Some \<lparr>solutions = sort (remdups (matched @ word_based)),
                     ranked = rank_solutions (sort (remdups (matched @ word_based)))
                                (Some (set (load_list pfile))),
                     next_letter = recommend_next_letter
                       (rank_solutions (sort (remdups (matched @ word_based)))
                          (Some (set (load_list pfile))))
                       (extract_attempted_letters p att) None (set (load_list pfile))\<rparr>))"
  unfolding wof_solver_def Let_def extract_attempted_upper pattern_letters_attempted
  by (auto split: option.splits simp: rank_solutions_Nil)

lemma pattern_char_not_lower: "pattern_char c \<Longrightarrow> c \<notin> set ascii_lowercase"
  by (auto simp: pattern_char_def upper_not_lower) (simp_all add: ascii_lowercase_def)

lemma upper_valid: "valid_pattern p \<Longrightarrow> upper p = p"
proof -
  assume "valid_pattern p"
  then have "\<forall>c\<in>set p. c \<notin> set ascii_lowercase"
    by (simp add: valid_pattern_def list_all_iff pattern_char_not_lower)
  then show ?thesis by (simp add: upper_def upper_char_other map_idI)
qed

lemma valid_plain: "valid_pattern p \<Longrightarrow> list_all plain_char p"
  by (auto simp: valid_pattern_def list_all_iff pattern_char_plain)

lemma fits_space:
  assumes "pattern_char pc" and "fits fb pc c"
  shows "isspace pc = isspace c"
  using assms upper_not_space [of c]
  by (cases "pc = CHR ''_''") (auto simp: fits_def isspace_def)

lemma fits_shape:
  assumes "valid_pattern p" and "list_all2 (fits fb) p c"
  shows "map length (split p) = map length (split c)"
proof -
  have "list_all2 (\<lambda>a b. isspace a = isspace b) p c"
    unfolding list_all2_conv_all_nth
  proof (intro conjI allI impI)
    show "length p = length c" using assms(2) by (rule list_all2_lengthD)
  next
    fix i assume i: "i < length p"
    then have "pattern_char (p ! i)"
      using assms(1) by (simp add: valid_pattern_def list_all_iff)
    moreover have "fits fb (p ! i) (c ! i)"
      using assms(2) i by (simp add: list_all2_conv_all_nth)
    ultimately show "isspace (p ! i) = isspace (c ! i)" by (rule fits_space)
  qed
  then show ?thesis unfolding split_def by (rule split_from_shape) simp
qed

lemma solutions_fit:
  assumes "valid_pattern p"
  shows "\<exists>r. wof_solver p att wfile pfile = Some r \<and>
             (\<forall>c\<in>set (solutions r). list_all2 (fits (extract_attempted_letters p att)) p c)"
proof -
  let ?fb = "extract_attempted_letters p att"
  have pl: "list_all plain_char p" using assms by (rule valid_plain)
  have up: "upper p = p" using assms by (rule upper_valid)
  obtain m where m: "phrase_matches p (load_list pfile) ?fb = Some m"
    by (simp add: phrase_matches_plain [OF pl])
  have "\<exists>wb. solve_pattern p (load_list wfile) ?fb = Some wb"
    by (simp add: solve_pattern_plain [OF pl])
  then obtain wb where wb: "solve_pattern p (load_list wfile) ?fb = Some wb" ..
  have r: "wof_solver p att wfile pfile = Some \<lparr>solutions = sort (remdups (m @ wb)),
      ranked = rank_solutions (sort (remdups (m @ wb))) (Some (set (load_list pfile))),
      next_letter = recommend_next_letter
        (rank_solutions (sort (remdups (m @ wb))) (Some (set (load_list pfile))))
        ?fb None (set (load_list pfile))\<rparr>"
    by (simp add: wof_solver_unfold up m wb)
  have "list_all2 (fits ?fb) p c" if "c \<in> set m \<union> set wb" for c
  proof (cases "c \<in> set m")
    case True
    from m have "set m \<subseteq> set (load_list pfile)"
      by (auto simp: phrase_matches_plain [OF pl])
    with True have "c = [] \<or> last c \<noteq> CHR 0x0A" using load_list_line [of c pfile] by auto
    with pl m True show ?thesis by (rule phrase_matches_fits)
  next
    case False
    with that have "c \<in> set wb" by simp
    with assms wb show ?thesis by (rule solve_pattern_fits)
  qed
  then show ?thesis by (simp add: r)
qed

section \<open>C1: every solution fits the pattern\<close>

text \<open>
  C1. For every valid pattern \<open>p\<close>, whatever the attempted letters and the two files,
  the solver returns, and every string of \<open>solutions\<close> has the word count and the
  per-word lengths of \<open>p\<close>, keeps every fixed cell of \<open>p\<close> at its position, and holds
  no attempted letter where \<open>p\<close> has a placeholder.
\<close>

theorem candidates_fit_pattern:
  assumes "valid_pattern p"
  shows "\<exists>r. wof_solver p att wfile pfile = Some r \<and>
    (\<forall>c\<in>set (solutions r).
       map length (split c) = map length (split p) \<and> length c = length p \<and>
       (\<forall>i<length p. (p ! i \<noteq> CHR ''_'' \<longrightarrow> c ! i = p ! i) \<and>
          (p ! i = CHR ''_'' \<longrightarrow> c ! i \<notin> extract_attempted_letters p att)))"
proof -
  from solutions_fit [OF assms, of att wfile pfile] obtain r where r: "wof_solver p att wfile pfile = Some r"
    and f: "\<forall>c\<in>set (solutions r). list_all2 (fits (extract_attempted_letters p att)) p c"
    by blast
  have "map length (split c) = map length (split p) \<and> length c = length p \<and>
       (\<forall>i<length p. (p ! i \<noteq> CHR ''_'' \<longrightarrow> c ! i = p ! i) \<and>
          (p ! i = CHR ''_'' \<longrightarrow> c ! i \<notin> extract_attempted_letters p att))"
    if "c \<in> set (solutions r)" for c
  proof -
    from f that have l: "list_all2 (fits (extract_attempted_letters p att)) p c" by simp
    then have "length c = length p" by (simp add: list_all2_lengthD)
    moreover have "map length (split c) = map length (split p)"
      using fits_shape [OF assms l] by simp
    moreover have "\<forall>i<length p. fits (extract_attempted_letters p att) (p ! i) (c ! i)"
      using l by (simp add: list_all2_conv_all_nth)
    ultimately show ?thesis by (auto simp: fits_def)
  qed
  with r show ?thesis by blast
qed

theorem candidates_fit_pattern_witness:
  "valid_pattern ''C_T _'' \<and>
   map_option solutions (wof_solver ''C_T _'' (Some ''o'') (Some [''CAT'', ''COT'', ''CUT'', ''A'', ''DOG'']) (Some [''CUT I'']))
     = Some [''CAT A'', ''CUT A'', ''CUT I''] \<and>
   (\<exists>r. wof_solver ''C_T _'' (Some ''o'') (Some [''CAT'', ''COT'', ''CUT'', ''A'', ''DOG'']) (Some [''CUT I'']) = Some r \<and>
    (\<forall>c\<in>set (solutions r).
       map length (split c) = map length (split ''C_T _'') \<and> length c = length ''C_T _'' \<and>
       (\<forall>i<length ''C_T _''. (''C_T _'' ! i \<noteq> CHR ''_'' \<longrightarrow> c ! i = ''C_T _'' ! i) \<and>
          (''C_T _'' ! i = CHR ''_'' \<longrightarrow> c ! i \<notin> extract_attempted_letters ''C_T _'' (Some ''o'')))))"
proof -
  have v: "valid_pattern ''C_T _''" by code_simp
  have s: "map_option solutions (wof_solver ''C_T _'' (Some ''o'') (Some [''CAT'', ''COT'', ''CUT'', ''A'', ''DOG'']) (Some [''CUT I'']))
     = Some [''CAT A'', ''CUT A'', ''CUT I'']" by code_simp
  from v s candidates_fit_pattern [OF v] show ?thesis by blast
qed

section \<open>The ranker\<close>

lemma freq_value: "freq ch = (if ch \<in> set ''ETAOINSHRDLU'' then 1 else 0)"
  by (simp add: freq_def)

lemma sum_freq: "sum_list (map freq s) = int (length (filter (\<lambda>ch. ch \<in> set ''ETAOINSHRDLU'') s))"
  by (induction s) (simp_all add: freq_value del: set_simps)

lemma rank_solutions_mset: "mset (rank_solutions sols ps) = mset sols"
proof -
  have "mset (rank_solutions sols ps) = image_mset fst (mset (map (\<lambda>s. (s, score s ps)) sols))"
    unfolding rank_solutions_def by (simp only: mset_map mset_sort)
  also have "\<dots> = mset sols"
    by (simp add: image_mset.compositionality comp_def)
  finally show ?thesis .
qed

lemma rank_solutions_sorted: "sorted (map (\<lambda>s. - score s ps) (rank_solutions sols ps))"
proof -
  let ?f = "\<lambda>(s, sc). - sc :: int"
  let ?xs = "sort_key ?f (map (\<lambda>s. (s, score s ps)) sols)"
  have eq: "map (\<lambda>s. - score s ps) (map fst ?xs) = map ?f ?xs"
    by (auto simp: map_eq_conv)
  have "sorted (map (\<lambda>s. - score s ps) (map fst ?xs))"
    unfolding eq by (rule sorted_sort_key)
  then show ?thesis unfolding rank_solutions_def .
qed

lemma rank_solutions_adjacent:
  assumes "Suc i < length (rank_solutions sols ps)"
  shows "score (rank_solutions sols ps ! Suc i) ps \<le> score (rank_solutions sols ps ! i) ps"
proof -
  let ?r = "rank_solutions sols ps"
  have "map (\<lambda>s. - score s ps) ?r ! i \<le> map (\<lambda>s. - score s ps) ?r ! Suc i"
    using rank_solutions_sorted [of ps sols] assms by (intro sorted_nth_mono) simp_all
  then show ?thesis using assms by simp
qed

section \<open>C6: the score the ranker sorts by\<close>

lemma score_value:
  "score s (Some ps) =
     int (length (filter (\<lambda>ch. ch \<in> set ''ETAOINSHRDLU'') s)) + (if s \<in> ps then 100 else 0)"
proof -
  have "(ps \<noteq> {} \<and> s \<in> ps) = (s \<in> ps)" by auto
  then show ?thesis by (simp add: score_def sum_freq del: set_simps)
qed

text \<open>
  C6. The ranker orders the solutions by a score that is, for a string \<open>s\<close>, the number
  of its characters among the twelve letters of \<open>ETAOINSHRDLU\<close> (each weighs its number
  of occurrences in that string, which is 1, every other character 0) plus 100 exactly
  when \<open>s\<close> is a member of the phrase set: \<open>rank_solutions\<close> is the stable sort, highest
  first, of the solutions paired with that number, its result is in non-increasing order
  of that number, and it is a permutation of its input.
\<close>

theorem ranker_scores_by_letter_count_plus_bonus:
  "rank_solutions sols (Some ps) =
     map fst (sort_key (\<lambda>(s, sc). - sc)
       (map (\<lambda>s. (s, int (length (filter (\<lambda>ch. ch \<in> set ''ETAOINSHRDLU'') s))
                      + (if s \<in> ps then 100 else 0))) sols)) \<and>
   sorted (map (\<lambda>s. - (int (length (filter (\<lambda>ch. ch \<in> set ''ETAOINSHRDLU'') s))
                          + (if s \<in> ps then 100 else 0)))
             (rank_solutions sols (Some ps))) \<and>
   mset (rank_solutions sols (Some ps)) = mset sols \<and>
   freq ch = (if ch \<in> set ''ETAOINSHRDLU'' then 1 else 0) \<and>
   score s (Some ps) =
     int (length (filter (\<lambda>ch. ch \<in> set ''ETAOINSHRDLU'') s)) + (if s \<in> ps then 100 else 0)"
proof (intro conjI)
  show "rank_solutions sols (Some ps) =
     map fst (sort_key (\<lambda>(s, sc). - sc)
       (map (\<lambda>s. (s, int (length (filter (\<lambda>ch. ch \<in> set ''ETAOINSHRDLU'') s))
                      + (if s \<in> ps then 100 else 0))) sols))"
    unfolding rank_solutions_def score_value ..
  show "sorted (map (\<lambda>s. - (int (length (filter (\<lambda>ch. ch \<in> set ''ETAOINSHRDLU'') s))
                          + (if s \<in> ps then 100 else 0)))
             (rank_solutions sols (Some ps)))"
    using rank_solutions_sorted [of "Some ps" sols] unfolding score_value .
  show "mset (rank_solutions sols (Some ps)) = mset sols" by (rule rank_solutions_mset)
  show "freq ch = (if ch \<in> set ''ETAOINSHRDLU'' then 1 else 0)" by (rule freq_value)
  show "score s (Some ps) =
     int (length (filter (\<lambda>ch. ch \<in> set ''ETAOINSHRDLU'') s)) + (if s \<in> ps then 100 else 0)"
    by (rule score_value)
qed

theorem ranker_scores_by_letter_count_plus_bonus_witness:
  "rank_solutions [''CAT'', ''EAT'', ''RAT'', ''VAT''] (Some {''VAT''}) = [''VAT'', ''EAT'', ''RAT'', ''CAT'']
   \<and> score ''VAT'' (Some {''VAT''}) = 102 \<and> score ''EAT'' (Some {''VAT''}) = 3
   \<and> score ''CAT'' (Some {''VAT''}) = 2 \<and> freq (CHR ''E'') = 1 \<and> freq (CHR ''C'') = 0"
proof -
  have e: "map fst (sort_key (\<lambda>(s, sc). - sc)
       (map (\<lambda>s. (s, int (length (filter (\<lambda>ch. ch \<in> set ''ETAOINSHRDLU'') s))
                      + (if s \<in> {''VAT''} then 100 else 0))) [''CAT'', ''EAT'', ''RAT'', ''VAT'']))
     = [''VAT'', ''EAT'', ''RAT'', ''CAT'']"
    by code_simp
  show ?thesis
    using ranker_scores_by_letter_count_plus_bonus
        [of "[''CAT'', ''EAT'', ''RAT'', ''VAT'']" "{''VAT''}" "CHR ''E''" "''VAT''"]
      ranker_scores_by_letter_count_plus_bonus
        [of "[''CAT'', ''EAT'', ''RAT'', ''VAT'']" "{''VAT''}" "CHR ''C''" "''EAT''"]
      ranker_scores_by_letter_count_plus_bonus
        [of "[''CAT'', ''EAT'', ''RAT'', ''VAT'']" "{''VAT''}" "CHR ''C''" "''CAT''"]
    unfolding e by simp
qed

section \<open>C4: the ranking is a sorted permutation of the solutions\<close>

text \<open>
  C4. Whenever the solver returns, \<open>ranked\<close> is a permutation of \<open>solutions\<close> (the same
  strings, each as often), and the score of each ranked string is at least the score of
  the next one. The score is taken with the phrase set of the phrase file.
\<close>

theorem ranked_is_sorted_permutation:
  assumes "wof_solver p att wfile pfile = Some r"
  shows "mset (ranked r) = mset (solutions r) \<and>
         (\<forall>i. Suc i < length (ranked r) \<longrightarrow>
            score (ranked r ! Suc i) (Some (set (load_list pfile)))
              \<le> score (ranked r ! i) (Some (set (load_list pfile))))"
proof -
  from assms have "ranked r = rank_solutions (solutions r) (Some (set (load_list pfile)))"
    by (auto simp: wof_solver_unfold split: option.splits)
  then show ?thesis
    by (simp add: rank_solutions_mset rank_solutions_adjacent)
qed

theorem ranked_is_sorted_permutation_witness:
  "wof_solver ''_AT'' None (Some [''CAT'', ''EAT'', ''RAT'', ''VAT'']) (Some [''VAT''])
     = Some \<lparr>solutions = [''CAT'', ''EAT'', ''RAT'', ''VAT''],
             ranked = [''VAT'', ''EAT'', ''RAT'', ''CAT''],
             next_letter = recommend_next_letter [''VAT'', ''EAT'', ''RAT'', ''CAT''] (set ''AT'') None {''VAT''}\<rparr>
   \<and> mset [''VAT'', ''EAT'', ''RAT'', ''CAT''] = mset [''CAT'', ''EAT'', ''RAT'', ''VAT'']
   \<and> score ''CAT'' (Some (set (load_list (Some [''VAT''])))) \<le> score ''RAT'' (Some (set (load_list (Some [''VAT'']))))"
proof -
  have w: "wof_solver ''_AT'' None (Some [''CAT'', ''EAT'', ''RAT'', ''VAT'']) (Some [''VAT''])
     = Some \<lparr>solutions = [''CAT'', ''EAT'', ''RAT'', ''VAT''],
             ranked = [''VAT'', ''EAT'', ''RAT'', ''CAT''],
             next_letter = recommend_next_letter [''VAT'', ''EAT'', ''RAT'', ''CAT''] (set ''AT'') None {''VAT''}\<rparr>"
    by code_simp
  from ranked_is_sorted_permutation [OF w] have
    "mset [''VAT'', ''EAT'', ''RAT'', ''CAT''] = mset [''CAT'', ''EAT'', ''RAT'', ''VAT'']"
    and "\<forall>i. Suc i < 4 \<longrightarrow>
            score ([''VAT'', ''EAT'', ''RAT'', ''CAT''] ! Suc i) (Some (set (load_list (Some [''VAT'']))))
              \<le> score ([''VAT'', ''EAT'', ''RAT'', ''CAT''] ! i) (Some (set (load_list (Some [''VAT'']))))"
    by simp_all
  from this(1) this(2) [rule_format, of 2] w show ?thesis by simp
qed

section \<open>C10: the solutions are in a canonical order\<close>

text \<open>
  C10. Whenever the solver returns, \<open>solutions\<close> has no duplicate and is in ascending
  lexicographic order, and its strings are those of the phrase path and of the word
  path together.
\<close>

theorem solutions_sorted_distinct:
  assumes "wof_solver p att wfile pfile = Some r"
  shows "distinct (solutions r) \<and> sorted (solutions r) \<and>
         (\<exists>matched word_based.
            phrase_matches (upper p) (load_list pfile) (extract_attempted_letters p att) = Some matched \<and>
            solve_pattern (upper p) (load_list wfile) (extract_attempted_letters p att) = Some word_based \<and>
            set (solutions r) = set matched \<union> set word_based)"
  using assms by (auto simp: wof_solver_unfold split: option.splits)

theorem solutions_sorted_distinct_witness:
  "map_option solutions (wof_solver ''C_T'' None (Some [''CUT'', ''CAT'', ''COT'', ''CAT'']) (Some [''cot'', ''cat'']))
     = Some [''CAT'', ''COT'', ''CUT'']
   \<and> distinct [''CAT'', ''COT'', ''CUT''] \<and> sorted [''CAT'', ''COT'', ''CUT'']"
proof -
  have w: "wof_solver ''C_T'' None (Some [''CUT'', ''CAT'', ''COT'', ''CAT'']) (Some [''cot'', ''cat''])
     = Some \<lparr>solutions = [''CAT'', ''COT'', ''CUT''], ranked = [''CAT'', ''COT'', ''CUT''],
         next_letter = recommend_next_letter [''CAT'', ''COT'', ''CUT''] (set ''CT'') None {''CAT'', ''COT''}\<rparr>"
    by code_simp
  from solutions_sorted_distinct [OF w] w show ?thesis by simp
qed

section \<open>The letter recommender\<close>

lemma counter_add_keys: "fst ` set (counter_add ch n counts) = insert ch (fst ` set counts)"
  by (simp add: counter_add_def dom_update)

lemma counter_add_distinct:
  "distinct (map fst counts) \<Longrightarrow> distinct (map fst (counter_add ch n counts))"
  by (simp add: counter_add_def distinct_update)

lemma counter_add_get:
  "counter_get (counter_add ch n counts) c =
     (if c = ch then counter_get counts c + n else counter_get counts c)"
  by (simp add: counter_add_def counter_get_def update_conv')

lemma tally_char_keys:
  "fst ` set (tally_char A P s w ch counts) =
     fst ` set counts \<union> (if ch \<in> set ascii_uppercase \<and> ch \<notin> A then {ch} else {})"
  by (simp add: tally_char_def Let_def counter_add_keys)

lemma tally_char_distinct:
  "distinct (map fst counts) \<Longrightarrow> distinct (map fst (tally_char A P s w ch counts))"
  by (simp add: tally_char_def Let_def counter_add_distinct)

lemma tally_char_get:
  "counter_get (tally_char A P s w ch counts) c =
     counter_get counts c +
       (if c = ch \<and> c \<in> set ascii_uppercase \<and> c \<notin> A then w * (if s \<in> P then 11 else 1) else 0)"
  by (auto simp: tally_char_def Let_def counter_add_get)

lemma fold_tally_char_keys:
  "fst ` set (fold (tally_char A P s w) t counts) =
     fst ` set counts \<union> {ch \<in> set t. ch \<in> set ascii_uppercase \<and> ch \<notin> A}"
  by (induction t arbitrary: counts) (auto simp: tally_char_keys split: if_splits)

lemma fold_tally_char_distinct:
  "distinct (map fst counts) \<Longrightarrow> distinct (map fst (fold (tally_char A P s w) t counts))"
  by (induction t arbitrary: counts) (simp_all add: tally_char_distinct)

lemma fold_tally_char_get:
  "counter_get (fold (tally_char A P s w) t counts) c =
     counter_get counts c +
       (if c \<in> set ascii_uppercase \<and> c \<notin> A
        then int (count_list t c) * (w * (if s \<in> P then 11 else 1)) else 0)"
  by (induction t arbitrary: counts) (simp_all add: tally_char_get algebra_simps)

text \<open>What one solution of weight \<open>w\<close> adds to the total of the letter \<open>c\<close>.\<close>

lemma fold_tally_solution_keys:
  "fst ` set (fold (tally_solution A P) sws counts) =
     fst ` set counts \<union> {ch. \<exists>sw\<in>set sws. ch \<in> set (fst sw) \<and> ch \<in> set ascii_uppercase \<and> ch \<notin> A}"
  by (induction sws arbitrary: counts) (auto simp: tally_solution_def fold_tally_char_keys)

lemma fold_tally_solution_distinct:
  "distinct (map fst counts) \<Longrightarrow> distinct (map fst (fold (tally_solution A P) sws counts))"
  by (induction sws arbitrary: counts) (simp_all add: tally_solution_def fold_tally_char_distinct)

lemma fold_tally_solution_get:
  "counter_get (fold (tally_solution A P) sws counts) c =
     counter_get counts c +
       (if c \<in> set ascii_uppercase \<and> c \<notin> A
        then (\<Sum>sw\<leftarrow>sws. int (count_list (fst sw) c) * (snd sw * (if fst sw \<in> P then 11 else 1)))
        else 0)"
  by (induction sws arbitrary: counts) (simp_all add: tally_solution_def fold_tally_char_get)

lemma penalise_keys:
  "fst ` set (fold (penalise A) l counts) = fst ` set counts \<union> {ch \<in> set l. ch \<notin> A}"
  by (induction l arbitrary: counts) (auto simp: penalise_def counter_add_keys split: if_splits)

lemma penalise_distinct:
  "distinct (map fst counts) \<Longrightarrow> distinct (map fst (fold (penalise A) l counts))"
  by (induction l arbitrary: counts) (simp_all add: penalise_def counter_add_distinct)

lemma counter_get_missing: "c \<notin> fst ` set counts \<Longrightarrow> counter_get counts c = 0"
  by (simp add: counter_get_def map_of_eq_None_iff [THEN iffD2])

lemma penalise_get:
  "counter_get (fold (penalise A) l counts) c =
     (if c \<in> fst ` set counts then counter_get counts c
      else if c \<in> set l \<and> c \<notin> A then - 1 else 0)"
proof (induction l arbitrary: counts)
  case Nil
  then show ?case by (simp add: counter_get_missing)
next
  case (Cons a l)
  show ?case
  proof (cases "a \<notin> A \<and> a \<notin> fst ` set counts")
    case True
    then have "fold (penalise A) (a # l) counts = fold (penalise A) l (counter_add a (- 1) counts)"
      by (simp add: penalise_def)
    then show ?thesis
      using True by (auto simp: Cons.IH counter_add_keys counter_add_get counter_get_missing)
  next
    case False
    then have "fold (penalise A) (a # l) counts = fold (penalise A) l counts"
      by (auto simp: penalise_def)
    then show ?thesis using False by (auto simp: Cons.IH)
  qed
qed

lemma most_common_set: "set (most_common counts) = set counts"
  by (simp add: most_common_def)

lemma most_common_distinct:
  "distinct (map fst counts) \<Longrightarrow> distinct (map fst (most_common counts))"
proof -
  assume "distinct (map fst counts)"
  moreover have "mset (map fst (most_common counts)) = mset (map fst counts)"
    unfolding most_common_def by (simp only: mset_map mset_sort)
  ultimately show ?thesis by (metis mset_eq_imp_distinct_iff)
qed

lemma most_common_get:
  assumes "distinct (map fst counts)"
  shows "counter_get (most_common counts) c = counter_get counts c"
proof -
  have "map_of (most_common counts) = map_of counts"
    using assms most_common_distinct [OF assms] most_common_set [of counts]
    by (simp add: map_of_inject_set)
  then show ?thesis by (simp add: counter_get_def)
qed

lemma most_common_sorted:
  assumes "Suc i < length (most_common counts)"
  shows "snd (most_common counts ! Suc i) \<le> snd (most_common counts ! i)"
proof -
  let ?r = "most_common counts"
  have "sorted (map (\<lambda>(ch, n). - n) ?r)"
    unfolding most_common_def by (rule sorted_sort_key)
  then have "map (\<lambda>(ch, n). - n) ?r ! i \<le> map (\<lambda>(ch, n). - n) ?r ! Suc i"
    using assms by (intro sorted_nth_mono) simp_all
  then show ?thesis using assms by (simp add: case_prod_unfold)
qed

lemma penalty_letters: "''ABCDEFGHIJKLMNOPQRSTUVWXYZ'' = ascii_uppercase"
  by (simp add: ascii_uppercase_def)

lemma recommend_keys:
  "fst ` set (recommend_next_letter sols A ws P) = set ascii_uppercase - A"
  unfolding recommend_next_letter_def Let_def most_common_set penalty_letters
  by (auto simp: penalise_keys fold_tally_solution_keys)

lemma recommend_distinct: "distinct (map fst (recommend_next_letter sols A ws P))"
  unfolding recommend_next_letter_def Let_def
  by (intro most_common_distinct penalise_distinct fold_tally_solution_distinct) simp

lemma recommend_sorted:
  "Suc i < length (recommend_next_letter sols A ws P) \<Longrightarrow>
   snd (recommend_next_letter sols A ws P ! Suc i) \<le> snd (recommend_next_letter sols A ws P ! i)"
  unfolding recommend_next_letter_def Let_def by (rule most_common_sorted)

lemma counter_get_Nil: "counter_get [] c = 0"
  by (simp add: counter_get_def)

lemma recommend_default_get:
  assumes "c \<in> set ascii_uppercase" and "c \<notin> A"
  shows "counter_get (recommend_next_letter sols A None P) c =
     (if \<exists>s\<in>set sols. c \<in> set s
      then (\<Sum>s\<leftarrow>sols. int (count_list s c) * (if s \<in> P then 11 else 1)) else - 1)"
proof -
  let ?sws = "zip sols (replicate (length sols) (1::int))"
  let ?t = "fold (tally_solution A P) ?sws []"
  have z: "?sws = map (\<lambda>s. (s, 1)) sols" by (simp add: zip_replicate2)
  have d: "distinct (map fst (fold (penalise A) ascii_uppercase ?t))"
    by (intro penalise_distinct fold_tally_solution_distinct) simp
  have k: "c \<in> fst ` set ?t \<longleftrightarrow> (\<exists>s\<in>set sols. c \<in> set s)"
    using assms by (auto simp: fold_tally_solution_keys z)
  have g: "counter_get ?t c = (\<Sum>s\<leftarrow>sols. int (count_list s c) * (if s \<in> P then 11 else 1))"
    using assms by (simp add: fold_tally_solution_get z counter_get_Nil comp_def)
  have "counter_get (recommend_next_letter sols A None P) c =
        counter_get (fold (penalise A) ascii_uppercase ?t) c"
    unfolding recommend_next_letter_def Let_def penalty_letters
    using d by (simp add: most_common_get)
  also have "\<dots> = (if c \<in> fst ` set ?t then counter_get ?t c else - 1)"
    using assms by (simp add: penalise_get)
  finally show ?thesis by (simp only: k g)
qed

lemma total_zero:
  "(\<Sum>s\<leftarrow>sols. int (count_list s c) * (if s \<in> P then 1 + 10 else 1)) = 0
   \<longleftrightarrow> \<not> (\<exists>s\<in>set sols. c \<in> set s)"
proof -
  have "(\<Sum>s\<leftarrow>sols. int (count_list s c) * (if s \<in> P then 1 + 10 else 1)) = 0
        \<longleftrightarrow> (\<forall>x\<in>set (map (\<lambda>s. int (count_list s c) * (if s \<in> P then 1 + 10 else 1)) sols). x = 0)"
    by (rule sum_list_nonneg_eq_0_iff) auto
  also have "\<dots> \<longleftrightarrow> (\<forall>s\<in>set sols. c \<notin> set s)"
    by (auto simp: count_list_0_iff)
  finally show ?thesis by simp
qed

section \<open>C5: the recommendation lists each unattempted letter once, best first\<close>

text \<open>
  C5. The list returned by \<open>recommend_next_letter\<close>, and so the \<open>next_letter\<close> field of
  every result of the solver, holds each of the 26 uppercase letters outside the
  attempted set exactly once and nothing else, with the weights in descending order.
\<close>

theorem next_letter_lists_unattempted_letters:
  "(let nl = recommend_next_letter sols A ws P in
      distinct (map fst nl) \<and> set (map fst nl) = set ascii_uppercase - A \<and>
      (\<forall>i. Suc i < length nl \<longrightarrow> snd (nl ! Suc i) \<le> snd (nl ! i))) \<and>
   (wof_solver p att wfile pfile = Some r \<longrightarrow>
      distinct (map fst (next_letter r)) \<and>
      set (map fst (next_letter r)) = set ascii_uppercase - extract_attempted_letters p att \<and>
      (\<forall>i. Suc i < length (next_letter r) \<longrightarrow>
         snd (next_letter r ! Suc i) \<le> snd (next_letter r ! i)))"
proof -
  have a: "distinct (map fst (recommend_next_letter sols A ws P)) \<and>
      set (map fst (recommend_next_letter sols A ws P)) = set ascii_uppercase - A \<and>
      (\<forall>i. Suc i < length (recommend_next_letter sols A ws P) \<longrightarrow>
         snd (recommend_next_letter sols A ws P ! Suc i) \<le> snd (recommend_next_letter sols A ws P ! i))"
    for sols A ws P
    using recommend_keys [of sols A ws P]
    by (simp add: recommend_distinct recommend_sorted)
  have "\<exists>sols. next_letter r = recommend_next_letter sols (extract_attempted_letters p att) None
          (set (load_list pfile))"
    if "wof_solver p att wfile pfile = Some r"
    using that by (auto simp: wof_solver_unfold split: option.splits)
  with a show ?thesis unfolding Let_def by metis
qed

theorem next_letter_lists_unattempted_letters_witness:
  "wof_solver ''c_t'' (Some ''xe'') (Some [''CAT'', ''COT'', ''CUT'', ''DOG'']) (Some [''cut''])
     = Some \<lparr>solutions = [''CAT'', ''COT'', ''CUT''], ranked = [''CUT'', ''CAT'', ''COT''],
         next_letter = [(CHR ''U'', 11), (CHR ''A'', 1), (CHR ''O'', 1), (CHR ''B'', - 1),
           (CHR ''D'', - 1), (CHR ''F'', - 1), (CHR ''G'', - 1), (CHR ''H'', - 1), (CHR ''I'', - 1),
           (CHR ''J'', - 1), (CHR ''K'', - 1), (CHR ''L'', - 1), (CHR ''M'', - 1), (CHR ''N'', - 1),
           (CHR ''P'', - 1), (CHR ''Q'', - 1), (CHR ''R'', - 1), (CHR ''S'', - 1), (CHR ''V'', - 1),
           (CHR ''W'', - 1), (CHR ''Y'', - 1), (CHR ''Z'', - 1)]\<rparr>
   \<and> set ''UAOBDFGHIJKLMNPQRSVWYZ'' = set ascii_uppercase - extract_attempted_letters ''c_t'' (Some ''xe'')
   \<and> distinct ''UAOBDFGHIJKLMNPQRSVWYZ''"
proof -
  have w: "wof_solver ''c_t'' (Some ''xe'') (Some [''CAT'', ''COT'', ''CUT'', ''DOG'']) (Some [''cut''])
     = Some \<lparr>solutions = [''CAT'', ''COT'', ''CUT''], ranked = [''CUT'', ''CAT'', ''COT''],
         next_letter = [(CHR ''U'', 11), (CHR ''A'', 1), (CHR ''O'', 1), (CHR ''B'', - 1),
           (CHR ''D'', - 1), (CHR ''F'', - 1), (CHR ''G'', - 1), (CHR ''H'', - 1), (CHR ''I'', - 1),
           (CHR ''J'', - 1), (CHR ''K'', - 1), (CHR ''L'', - 1), (CHR ''M'', - 1), (CHR ''N'', - 1),
           (CHR ''P'', - 1), (CHR ''Q'', - 1), (CHR ''R'', - 1), (CHR ''S'', - 1), (CHR ''V'', - 1),
           (CHR ''W'', - 1), (CHR ''Y'', - 1), (CHR ''Z'', - 1)]\<rparr>"
    by code_simp
  from next_letter_lists_unattempted_letters [where p = "''c_t''" and att = "Some ''xe''"
     and wfile = "Some [''CAT'', ''COT'', ''CUT'', ''DOG'']" and pfile = "Some [''cut'']",
     THEN conjunct2, rule_format, OF w]
  have "set (map fst (next_letter \<lparr>solutions = [''CAT'', ''COT'', ''CUT''], ranked = [''CUT'', ''CAT'', ''COT''],
         next_letter = [(CHR ''U'', 11), (CHR ''A'', 1), (CHR ''O'', 1), (CHR ''B'', - 1),
           (CHR ''D'', - 1), (CHR ''F'', - 1), (CHR ''G'', - 1), (CHR ''H'', - 1), (CHR ''I'', - 1),
           (CHR ''J'', - 1), (CHR ''K'', - 1), (CHR ''L'', - 1), (CHR ''M'', - 1), (CHR ''N'', - 1),
           (CHR ''P'', - 1), (CHR ''Q'', - 1), (CHR ''R'', - 1), (CHR ''S'', - 1), (CHR ''V'', - 1),
           (CHR ''W'', - 1), (CHR ''Y'', - 1), (CHR ''Z'', - 1)]\<rparr>))
        = set ascii_uppercase - extract_attempted_letters ''c_t'' (Some ''xe'')"
    by blast
  then have "set ''UAOBDFGHIJKLMNPQRSVWYZ'' = set ascii_uppercase - extract_attempted_letters ''c_t'' (Some ''xe'')"
    by simp
  moreover have "distinct ''UAOBDFGHIJKLMNPQRSVWYZ''" by simp
  ultimately show ?thesis using w by blast
qed

section \<open>C7: the weights of the recommendation\<close>

text \<open>
  C7. With the default weight 1 for each candidate, the weight listed for an unattempted
  uppercase letter is the sum over the candidates of 1 for each occurrence of the letter,
  and of 10 more for each occurrence in a candidate of the phrase set; a letter whose sum
  is zero is listed with \<open>-1\<close>.
\<close>

theorem recommendation_weight:
  assumes "c \<in> set ascii_uppercase" and "c \<notin> A"
  shows "map_of (recommend_next_letter sols A None P) c =
     Some (let total = (\<Sum>s\<leftarrow>sols. int (count_list s c) * (if s \<in> P then 1 + 10 else 1))
           in if total = 0 then - 1 else total)"
proof -
  have "c \<in> fst ` set (recommend_next_letter sols A None P)"
    using assms by (simp add: recommend_keys)
  then obtain v where v: "map_of (recommend_next_letter sols A None P) c = Some v"
    by (metis weak_map_of_SomeI imageE prod.collapse)
  then have "v = counter_get (recommend_next_letter sols A None P) c"
    by (simp add: counter_get_def)
  also have "\<dots> = (if \<exists>s\<in>set sols. c \<in> set s
      then (\<Sum>s\<leftarrow>sols. int (count_list s c) * (if s \<in> P then 11 else 1)) else - 1)"
    using assms by (rule recommend_default_get)
  finally have "v = (if \<exists>s\<in>set sols. c \<in> set s
      then (\<Sum>s\<leftarrow>sols. int (count_list s c) * (if s \<in> P then 11 else 1)) else - 1)" .
  moreover have "(\<lambda>s. int (count_list s c) * (if s \<in> P then 1 + 10 else 1)) =
      (\<lambda>s. int (count_list s c) * (if s \<in> P then 11 else 1))"
    by (rule ext) simp
  ultimately show ?thesis
    using total_zero [of c P sols] by (simp add: v Let_def)
qed

theorem recommendation_weight_witness:
  "map_of (recommend_next_letter [''ADA'', ''BOB''] {CHR ''O''} None {''ADA''}) (CHR ''A'') = Some 22
   \<and> map_of (recommend_next_letter [''ADA'', ''BOB''] {CHR ''O''} None {''ADA''}) (CHR ''B'') = Some 2
   \<and> map_of (recommend_next_letter [''ADA'', ''BOB''] {CHR ''O''} None {''ADA''}) (CHR ''C'') = Some (- 1)"
proof -
  have u: "CHR ''A'' \<in> set ascii_uppercase" "CHR ''B'' \<in> set ascii_uppercase"
    "CHR ''C'' \<in> set ascii_uppercase"
    by (simp_all add: ascii_uppercase_def)
  have n: "CHR ''A'' \<notin> {CHR ''O''}" "CHR ''B'' \<notin> {CHR ''O''}" "CHR ''C'' \<notin> {CHR ''O''}"
    by simp_all
  show ?thesis
    using recommendation_weight [OF u(1) n(1), of "[''ADA'', ''BOB'']" "{''ADA''}"]
      recommendation_weight [OF u(2) n(2), of "[''ADA'', ''BOB'']" "{''ADA''}"]
      recommendation_weight [OF u(3) n(3), of "[''ADA'', ''BOB'']" "{''ADA''}"]
    by simp
qed

section \<open>The recommendation without candidates\<close>

lemma update_new_key: "k \<notin> fst ` set al \<Longrightarrow> AList.update k v al = al @ [(k, v)]"
  by (induction al) auto

lemma penalise_append:
  "distinct l \<Longrightarrow>
   fold (penalise A) l counts =
     counts @ map (\<lambda>ch. (ch, - 1)) (filter (\<lambda>ch. ch \<notin> A \<and> ch \<notin> fst ` set counts) l)"
proof (induction l arbitrary: counts)
  case Nil
  then show ?case by simp
next
  case (Cons a l)
  show ?case
  proof (cases "a \<notin> A \<and> a \<notin> fst ` set counts")
    case True
    then have c: "penalise A a counts = counts @ [(a, - 1)]"
      by (simp add: penalise_def counter_add_def update_new_key counter_get_missing)
    have "filter (\<lambda>ch. ch \<notin> A \<and> ch \<notin> fst ` set (counts @ [(a, - 1)])) l =
          filter (\<lambda>ch. ch \<notin> A \<and> ch \<notin> fst ` set counts) l"
      using Cons.prems by (intro filter_cong) auto
    then show ?thesis using True Cons.prems by (simp add: c Cons.IH)
  next
    case False
    then have "penalise A a counts = counts" by (auto simp: penalise_def)
    then show ?thesis using False Cons.prems by (auto simp: Cons.IH)
  qed
qed

lemma recommend_no_candidates:
  "recommend_next_letter [] A None P =
     map (\<lambda>ch. (ch, - 1)) (filter (\<lambda>ch. ch \<notin> A) ascii_uppercase)"
proof -
  have d: "distinct ascii_uppercase" by (simp add: ascii_uppercase_def)
  let ?l = "map (\<lambda>ch. (ch, - 1 :: int)) (filter (\<lambda>ch. ch \<notin> A) ascii_uppercase)"
  have "map (\<lambda>(ch, n). - n) ?l = replicate (length ?l) 1"
    by (simp add: map_replicate_const comp_def)
  then have "sorted (map (\<lambda>(ch, n). - n) ?l)" by (simp only: sorted_replicate)
  then have "most_common ?l = ?l" unfolding most_common_def by (rule sort_key_id_if_sorted)
  then show ?thesis
    by (simp add: recommend_next_letter_def penalty_letters penalise_append [OF d])
qed

section \<open>C8: a segment without a word empties the word path\<close>

lemma solve_parts_empty_segment:
  "solve_parts parts words fb acc = Some res \<Longrightarrow> part \<in> set parts \<Longrightarrow>
   match_words words part fb = Some [] \<Longrightarrow> res = []"
  by (induction parts arbitrary: acc) (auto split: option.splits if_splits)

lemma wof_solver_plain_returns:
  assumes "list_all plain_char (upper p)"
  shows "\<exists>r. wof_solver p att wfile pfile = Some r"
  by (simp add: wof_solver_unfold phrase_matches_plain [OF assms] solve_pattern_plain [OF assms])

text \<open>
  C8. If one of the segments of the (uppercased) pattern matches no word of the word
  list, the word path yields no candidate for the whole pattern, and the solutions are
  exactly the matches of the phrase path. The solver returns for every pattern made of
  characters that stand for themselves in a regular expression.
\<close>

theorem empty_segment_empties_word_path:
  assumes "part \<in> set (split (upper p))"
    and "match_words (load_list wfile) part (extract_attempted_letters p att) = Some []"
  shows "(list_all plain_char (upper p) \<longrightarrow> (\<exists>r. wof_solver p att wfile pfile = Some r)) \<and>
         (\<forall>r. wof_solver p att wfile pfile = Some r \<longrightarrow>
            solve_pattern (upper p) (load_list wfile) (extract_attempted_letters p att) = Some [] \<and>
            (\<exists>matched.
               phrase_matches (upper p) (load_list pfile) (extract_attempted_letters p att)
                 = Some matched \<and>
               set (solutions r) = set matched))"
proof (intro conjI allI impI)
  assume "list_all plain_char (upper p)"
  then show "\<exists>r. wof_solver p att wfile pfile = Some r" by (rule wof_solver_plain_returns)
next
  fix r assume r: "wof_solver p att wfile pfile = Some r"
  then obtain m wb where
    m: "phrase_matches (upper p) (load_list pfile) (extract_attempted_letters p att) = Some m"
    and wb: "solve_pattern (upper p) (load_list wfile) (extract_attempted_letters p att) = Some wb"
    and s: "solutions r = sort (remdups (m @ wb))"
    by (auto simp: wof_solver_unfold split: option.splits)
  from wb assms have "wb = []"
    unfolding solve_pattern_def by (rule solve_parts_empty_segment)
  with wb show "solve_pattern (upper p) (load_list wfile) (extract_attempted_letters p att) = Some []"
    by simp
  from \<open>wb = []\<close> m s
  show "\<exists>matched. phrase_matches (upper p) (load_list pfile) (extract_attempted_letters p att)
          = Some matched \<and> set (solutions r) = set matched"
    by simp
qed

theorem empty_segment_empties_word_path_witness:
  "solve_pattern ''A _____'' [''A'', ''CAT''] {CHR ''A''} = Some [] \<and>
   wof_solver ''a _____'' None (Some [''a'', ''cat'']) (Some [''A HOUSE'', ''A PLANE''])
     = Some \<lparr>solutions = [''A HOUSE''], ranked = [''A HOUSE''],
         next_letter = recommend_next_letter [''A HOUSE''] {CHR ''A''} None {''A HOUSE'', ''A PLANE''}\<rparr>"
proof -
  have a: "''_____'' \<in> set (split (upper ''a _____''))" by code_simp
  have b: "match_words (load_list (Some [''a'', ''cat''])) ''_____''
             (extract_attempted_letters ''a _____'' None) = Some []" by code_simp
  have w: "wof_solver ''a _____'' None (Some [''a'', ''cat'']) (Some [''A HOUSE'', ''A PLANE''])
     = Some \<lparr>solutions = [''A HOUSE''], ranked = [''A HOUSE''],
         next_letter = recommend_next_letter [''A HOUSE''] {CHR ''A''} None {''A HOUSE'', ''A PLANE''}\<rparr>"
    by code_simp
  have e: "upper ''a _____'' = ''A _____''" "load_list (Some [''a'', ''cat'']) = [''A'', ''CAT'']"
    "extract_attempted_letters ''a _____'' None = {CHR ''A''}"
    by code_simp+
  have pl: "list_all plain_char (upper ''a _____'')" by code_simp
  from empty_segment_empties_word_path [OF a b, THEN conjunct1, rule_format, OF pl]
    empty_segment_empties_word_path [OF a b, THEN conjunct2, rule_format, OF w]
  show ?thesis using w by (simp add: e)
qed

section \<open>C9: the result without candidates\<close>

lemma solve_parts_no_words:
  "solve_parts parts [] fb acc = Some res \<Longrightarrow> parts \<noteq> [] \<Longrightarrow> res = []"
  by (cases parts) (auto simp: match_words_def split: option.splits if_splits)

lemma phrase_matches_no_phrases: "phrase_matches p [] fb = Some m \<Longrightarrow> m = []"
  by (auto simp: phrase_matches_def split: option.splits)

text \<open>
  C9, as the code has it. When neither the phrase path nor the word path yields a
  candidate, the solver returns \<open>solutions = []\<close>, \<open>ranked = []\<close> and a \<open>next_letter\<close>
  that lists every unattempted uppercase letter with \<open>-1\<close>, in alphabetical order, and no
  attempted letter; every result with an empty \<open>solutions\<close> is that one. When word list
  and phrase list are both empty (missing files included) and the pattern has at least
  one segment, every result has an empty \<open>solutions\<close>. For a pattern whose characters
  stand for themselves in a regular expression the solver returns whatever the two
  files hold.
\<close>

theorem no_candidates_result:
  "(phrase_matches (upper p) (load_list pfile) (extract_attempted_letters p att) = Some [] \<and>
    solve_pattern (upper p) (load_list wfile) (extract_attempted_letters p att) = Some [] \<longrightarrow>
      wof_solver p att wfile pfile =
        Some \<lparr>solutions = [], ranked = [],
              next_letter = map (\<lambda>ch. (ch, - 1))
                (filter (\<lambda>ch. ch \<notin> extract_attempted_letters p att) ascii_uppercase)\<rparr>) \<and>
   (wof_solver p att wfile pfile = Some r \<and> solutions r = [] \<longrightarrow>
      r = \<lparr>solutions = [], ranked = [],
            next_letter = map (\<lambda>ch. (ch, - 1))
              (filter (\<lambda>ch. ch \<notin> extract_attempted_letters p att) ascii_uppercase)\<rparr>) \<and>
   (wof_solver p att wfile pfile = Some r \<and> split (upper p) \<noteq> [] \<and>
    load_list wfile = [] \<and> load_list pfile = [] \<longrightarrow> solutions r = []) \<and>
   (list_all plain_char (upper p) \<longrightarrow> (\<exists>r'. wof_solver p att wfile pfile = Some r'))"
proof (intro conjI impI)
  assume "phrase_matches (upper p) (load_list pfile) (extract_attempted_letters p att) = Some [] \<and>
    solve_pattern (upper p) (load_list wfile) (extract_attempted_letters p att) = Some []"
  then show "wof_solver p att wfile pfile =
        Some \<lparr>solutions = [], ranked = [],
              next_letter = map (\<lambda>ch. (ch, - 1))
                (filter (\<lambda>ch. ch \<notin> extract_attempted_letters p att) ascii_uppercase)\<rparr>"
    by (simp add: wof_solver_unfold rank_solutions_Nil recommend_no_candidates)
next
  assume "wof_solver p att wfile pfile = Some r \<and> solutions r = []"
  then show "r = \<lparr>solutions = [], ranked = [],
            next_letter = map (\<lambda>ch. (ch, - 1))
              (filter (\<lambda>ch. ch \<notin> extract_attempted_letters p att) ascii_uppercase)\<rparr>"
    by (auto simp: wof_solver_unfold rank_solutions_Nil recommend_no_candidates
        split: option.splits)
next
  assume a: "wof_solver p att wfile pfile = Some r \<and> split (upper p) \<noteq> [] \<and>
    load_list wfile = [] \<and> load_list pfile = []"
  then obtain m wb where
    m: "phrase_matches (upper p) [] (extract_attempted_letters p att) = Some m"
    and wb: "solve_pattern (upper p) [] (extract_attempted_letters p att) = Some wb"
    and s: "solutions r = sort (remdups (m @ wb))"
    by (auto simp: wof_solver_unfold split: option.splits)
  from m have "m = []" by (rule phrase_matches_no_phrases)
  moreover from wb a have "wb = []"
    unfolding solve_pattern_def by (auto dest: solve_parts_no_words)
  ultimately show "solutions r = []" using s by simp
next
  assume "list_all plain_char (upper p)"
  then show "\<exists>r'. wof_solver p att wfile pfile = Some r'" by (rule wof_solver_plain_returns)
qed

theorem no_candidates_result_witness:
  "wof_solver ''h_ y_u'' (Some ''e'') (Some [''HI'', ''YES'']) None =
     Some \<lparr>solutions = [], ranked = [],
       next_letter = map (\<lambda>ch. (ch, - 1)) ''ABCDFGIJKLMNOPQRSTVWXZ''\<rparr>
   \<and> map_option solutions (wof_solver ''.'' None None (Some [])) = Some []
   \<and> (\<exists>r'. wof_solver ''h_ y_u'' None None (Some []) = Some r')"
proof -
  have c: "phrase_matches (upper ''h_ y_u'') (load_list None)
             (extract_attempted_letters ''h_ y_u'' (Some ''e'')) = Some [] \<and>
           solve_pattern (upper ''h_ y_u'') (load_list (Some [''HI'', ''YES'']))
             (extract_attempted_letters ''h_ y_u'' (Some ''e'')) = Some []"
    by code_simp
  have f: "filter (\<lambda>ch. ch \<notin> extract_attempted_letters ''h_ y_u'' (Some ''e'')) ascii_uppercase
           = ''ABCDFGIJKLMNOPQRSTVWXZ''"
    by code_simp
  have 1: "wof_solver ''h_ y_u'' (Some ''e'') (Some [''HI'', ''YES'']) None =
     Some \<lparr>solutions = [], ranked = [],
       next_letter = map (\<lambda>ch. (ch, - 1)) ''ABCDFGIJKLMNOPQRSTVWXZ''\<rparr>"
    using no_candidates_result [of "''h_ y_u''" None "Some ''e''" "Some [''HI'', ''YES'']",
        THEN conjunct1, rule_format, OF c]
    by (simp only: f)
  have "map_option (\<lambda>r. True) (wof_solver ''.'' None None (Some [])) = Some True" by code_simp
  then obtain r where r: "wof_solver ''.'' None None (Some []) = Some r" by auto
  have e: "split (upper ''.'') \<noteq> [] \<and> load_list None = [] \<and> load_list (Some []) = []"
    by code_simp
  from no_candidates_result [of "''.''" "Some []" None None r,
      THEN conjunct2, THEN conjunct2, THEN conjunct1, rule_format] r e
  have "solutions r = []" by blast
  with r have 2: "map_option solutions (wof_solver ''.'' None None (Some [])) = Some []" by simp
  have pl: "list_all plain_char (upper ''h_ y_u'')" by code_simp
  from no_candidates_result [of "''h_ y_u''" "Some []" None None,
      THEN conjunct2, THEN conjunct2, THEN conjunct2, rule_format, OF pl]
  have 3: "\<exists>r'. wof_solver ''h_ y_u'' None None (Some []) = Some r'" .
  from 1 2 3 show ?thesis by blast
qed

text \<open>
  C9 as stated fails at the empty pattern: with both files missing the word path joins
  the one empty combination of no segment into the empty string, and \<open>solutions\<close> holds
  it.
\<close>

theorem empty_pattern_has_a_candidate:
  "load_list None = [] \<and>
   wof_solver [] None None None =
     Some \<lparr>solutions = [[]], ranked = [[]],
           next_letter = map (\<lambda>ch. (ch, - 1)) ''ABCDEFGHIJKLMNOPQRSTUVWXYZ''\<rparr>"
  by code_simp

section \<open>C2: the set built for forbidden letters\<close>

text \<open>
  C2 asks that the matcher compiled with a forbidden set accepts, at a placeholder,
  exactly the uppercase letters outside that set. For the pattern \<open>_\<close> and the forbidden
  letter \<open>A\<close> the regular expression is \<open>^[A-Z^A]$\<close>, whose set holds the range, the
  caret and \<open>A\<close>: the matcher accepts the forbidden \<open>A\<close>, and the caret, which is no letter.
\<close>

theorem forbidden_letter_is_accepted:
  "pattern_to_regex ''_'' (Some ''A'') = ''^[A-Z^A]$'' \<and>
   re_compile ''^[A-Z^A]$'' =
     Some [Bol, Char_set False [(CHR ''A'', CHR ''Z''), (CHR ''^'', CHR ''^''), (CHR ''A'', CHR ''A'')], Eol] \<and>
   rx_match [Bol, Char_set False [(CHR ''A'', CHR ''Z''), (CHR ''^'', CHR ''^''), (CHR ''A'', CHR ''A'')], Eol]
     True ''A'' \<and>
   rx_match [Bol, Char_set False [(CHR ''A'', CHR ''Z''), (CHR ''^'', CHR ''^''), (CHR ''A'', CHR ''A'')], Eol]
     True ''^''"
  by code_simp

section \<open>C3: characters that are syntax in a regular expression\<close>

text \<open>
  C3 asks that a pattern character that is no letter, placeholder or space matches
  itself only. The pattern \<open>.\<close> compiles to \<open>^.$\<close>, the dot is read as the wildcard, and
  the phrase \<open>A\<close> becomes a solution of the pattern.
\<close>

theorem dot_matches_any_letter:
  "pattern_to_regex ''.'' None = ''^.$'' \<and>
   re_compile ''^.$'' = Some [Bol, Any_char, Eol] \<and>
   rx_match [Bol, Any_char, Eol] True ''A'' \<and>
   phrase_matches ''.'' [''A''] {} = Some [''A''] \<and>
   map_option solutions (wof_solver ''.'' None None (Some [''A''])) = Some [''A'']"
  by code_simp

end
